theory Spec2Isabelle
  imports Complex_Main
begin

section \<open>The window's timer scheduler\<close>

text \<open>
  The component \<open>DemoName\<close> of \<open>src/App.tsx\<close> drives the icon's opacity with
  \<open>setTimeout\<close> and \<open>clearTimeout\<close>. The scheduler is modelled as a simulated clock
  with a list of pending timers. Times and opacities are JavaScript numbers: they are
  reals here (milliseconds for the times), and the one place where the source computes
  with them, the random pause, rounds as JavaScript does (see below).

  A timer remembers which of the three closures of the effect it will call.
\<close>

datatype callback = StartAnimation | AnimateNextStep | RunFullGlitchSequence

record timer =
  handle :: nat
  due :: real
  cb :: callback

text \<open>
  What an observer of the animator sees: a call of \<open>setIconOpacity\<close>, and the start of
  the random pause between two bursts (with its length). The trace is instrumentation:
  it is written, never read, by the modelled code.
\<close>

datatype event = Emit real | IdleWait real

text \<open>
  The constants of the effect, gathered so that they can be varied: the source fixes them
  to the values of \<open>reference_config\<close>.
\<close>

record config =
  glitchSteps :: "real list"
  stepInterval :: real
  warmup :: real
  minPause :: real
  maxPause :: real

definition reference_config :: config where
  "reference_config =
     \<lparr>glitchSteps = [0.6, 0.2, 0.8, 0.4, 1], stepInterval = 75, warmup = 2000,
      minPause = 1500, maxPause = 2500\<rparr>"

record animator =
  now :: real
  timers :: "timer list"
  nextHandle :: nat
  iconOpacity :: real
  glitchTimeoutRef :: "nat option"
  startAnimationTimeout :: nat
  currentStepInSequence :: nat
  draws :: nat
  trace :: "event list"

text \<open>
  The delay of \<open>window.setTimeout\<close> is a whole number of milliseconds: the platform
  drops the fraction of the number it is given, and a negative delay counts as zero.
\<close>

definition whole_ms :: "real \<Rightarrow> real" where
  "whole_ms delay = of_int \<lfloor>max 0 delay\<rfloor>"

text \<open>
  \<open>setTimeout\<close> returns a fresh handle (handles are positive integers, counted up) and
  queues the callback, due after the whole milliseconds of the delay. \<open>clearTimeout\<close>
  removes the timer with the given handle, if it is still pending.
\<close>

definition setTimeout :: "callback \<Rightarrow> real \<Rightarrow> animator \<Rightarrow> nat \<times> animator" where
  "setTimeout f delay s =
     (nextHandle s,
      s\<lparr>timers := timers s @ [\<lparr>handle = nextHandle s, due = now s + whole_ms delay, cb = f\<rparr>],
        nextHandle := Suc (nextHandle s)\<rparr>)"

definition clearTimeout :: "nat \<Rightarrow> animator \<Rightarrow> animator" where
  "clearTimeout h s = s\<lparr>timers := filter (\<lambda>t. handle t \<noteq> h) (timers s)\<rparr>"

section \<open>JavaScript numbers\<close>

text \<open>
  A JavaScript number is an IEEE 754 binary64 value, and \<open>*\<close>, \<open>+\<close> and \<open>-\<close> return the
  exact result rounded to the nearest such value, ties to the even significand. \<open>fl\<close> is
  that rounding, for results below the overflow threshold: \<open>ulp x\<close> is the distance
  between the binary64 values around \<open>x\<close> (the exponent of \<open>x\<close> is found by halving or
  doubling it into \<open>[1, 2)\<close>, and is at least \<open>-1022\<close>, where the subnormal values start).
\<close>

definition rne :: "real \<Rightarrow> int" where
  "rne x =
     (let f = \<lfloor>x\<rfloor>; d = x - of_int f
      in if d < 1 / 2 then f else if 1 / 2 < d then f + 1 else if even f then f else f + 1)"

fun expo :: "nat \<Rightarrow> real \<Rightarrow> int" where
  "expo 0 x = 0"
| "expo (Suc k) x =
     (if 2 \<le> x then expo k (x / 2) + 1 else if x < 1 then expo k (2 * x) - 1 else 0)"

definition ulp :: "real \<Rightarrow> real" where
  "ulp x = 2 powi (max (- 1022) (expo 2100 \<bar>x\<bar>) - 52)"

definition fl :: "real \<Rightarrow> real" where
  "fl x = (if x = 0 then 0 else sgn x * (of_int (rne (\<bar>x\<bar> / ulp x)) * ulp x))"

section \<open>The glitch animator (\<open>DemoName\<close>)\<close>

text \<open>
  \<open>Math.random() * (2500 - 1500) + 1500\<close>, for the value \<open>r\<close> that \<open>Math.random()\<close>
  returned: a difference, a product and a sum, each rounded.
\<close>

definition randomLoopInterval :: "config \<Rightarrow> real \<Rightarrow> real" where
  "randomLoopInterval c r = fl (fl (r * fl (maxPause c - minPause c)) + minPause c)"

text \<open>
  The random source is a function \<open>rnd\<close>: the \<open>i\<close>-th call of \<open>Math.random()\<close> returns
  \<open>rnd i\<close>; the animator counts its calls in \<open>draws\<close>.
\<close>

text \<open>A source that returns the same value at every call.\<close>

definition constant_source :: "real \<Rightarrow> nat \<Rightarrow> real" where
  "constant_source r i = r"

definition animateNextStep :: "config \<Rightarrow> (nat \<Rightarrow> real) \<Rightarrow> animator \<Rightarrow> animator" where
  "animateNextStep c rnd s =
     (if currentStepInSequence s < length (glitchSteps c) then
        let v = glitchSteps c ! currentStepInSequence s;
            s1 = s\<lparr>iconOpacity := v, trace := trace s @ [Emit v]\<rparr>;
            s2 = s1\<lparr>currentStepInSequence := Suc (currentStepInSequence s1)\<rparr>;
            (h, s3) = setTimeout AnimateNextStep (stepInterval c) s2
        in s3\<lparr>glitchTimeoutRef := Some h\<rparr>
      else
        let interval = randomLoopInterval c (rnd (draws s));
            s1 = s\<lparr>draws := Suc (draws s), trace := trace s @ [IdleWait interval]\<rparr>;
            (h, s2) = setTimeout RunFullGlitchSequence interval s1
        in s2\<lparr>glitchTimeoutRef := Some h\<rparr>)"

definition runFullGlitchSequence :: "config \<Rightarrow> (nat \<Rightarrow> real) \<Rightarrow> animator \<Rightarrow> animator" where
  "runFullGlitchSequence c rnd s = animateNextStep c rnd (s\<lparr>currentStepInSequence := 0\<rparr>)"

text \<open>The callback of the first timer: \<open>let currentStepInSequence = 0\<close>, then the first burst.\<close>

definition startAnimation :: "config \<Rightarrow> (nat \<Rightarrow> real) \<Rightarrow> animator \<Rightarrow> animator" where
  "startAnimation c rnd s = runFullGlitchSequence c rnd (s\<lparr>currentStepInSequence := 0\<rparr>)"

text \<open>
  Mounting the component runs the effect: \<open>iconOpacity\<close> is 0, the ref is \<open>null\<close>, and the
  first timer is set. Only the timers of this component are modelled; the clock starts
  at 0 and the handles at 1.
\<close>

definition unmounted :: animator where
  "unmounted =
     \<lparr>now = 0, timers = [], nextHandle = 1, iconOpacity = 0, glitchTimeoutRef = None,
      startAnimationTimeout = 0, currentStepInSequence = 0, draws = 0, trace = []\<rparr>"

definition start :: "config \<Rightarrow> animator" where
  "start c =
     (let (h, s) = setTimeout StartAnimation (warmup c) unmounted
      in s\<lparr>startAnimationTimeout := h\<rparr>)"

text \<open>
  The cleanup of the effect. \<open>if (glitchTimeoutRef.current)\<close> is false for \<open>null\<close> and
  for the number 0.
\<close>

definition stop :: "animator \<Rightarrow> animator" where
  "stop s =
     (let s1 = clearTimeout (startAnimationTimeout s) s
      in case glitchTimeoutRef s1 of
           None \<Rightarrow> s1
         | Some h \<Rightarrow> if h \<noteq> 0 then clearTimeout h s1 else s1)"

subsection \<open>Running the timers\<close>

text \<open>The pending timer that is due first; of two with the same time, the one set first.\<close>

fun earliest :: "timer list \<Rightarrow> timer option" where
  "earliest [] = None"
| "earliest (t # ts) =
     (case earliest ts of
        None \<Rightarrow> Some t
      | Some u \<Rightarrow> if due u < due t then Some u else Some t)"

definition run_callback :: "config \<Rightarrow> (nat \<Rightarrow> real) \<Rightarrow> callback \<Rightarrow> animator \<Rightarrow> animator" where
  "run_callback c rnd f s =
     (case f of
        StartAnimation \<Rightarrow> startAnimation c rnd s
      | AnimateNextStep \<Rightarrow> animateNextStep c rnd s
      | RunFullGlitchSequence \<Rightarrow> runFullGlitchSequence c rnd s)"

text \<open>A timer fires: the clock is at its time, it is no longer pending, its callback runs.\<close>

definition fire :: "config \<Rightarrow> (nat \<Rightarrow> real) \<Rightarrow> timer \<Rightarrow> animator \<Rightarrow> animator" where
  "fire c rnd tm s =
     run_callback c rnd (cb tm)
       (s\<lparr>now := max (now s) (due tm), timers := filter (\<lambda>u. handle u \<noteq> handle tm) (timers s)\<rparr>)"

text \<open>
  Advancing the simulated clock to the time \<open>t\<close> fires, in order, every timer that is due
  by then, those set on the way included. With delays of zero this may never end, so the
  result is an option.
\<close>

partial_function (option) run_until ::
  "config \<Rightarrow> (nat \<Rightarrow> real) \<Rightarrow> real \<Rightarrow> animator \<Rightarrow> animator option" where
  "run_until c rnd t s =
     (case earliest (timers s) of
        None \<Rightarrow> Some (s\<lparr>now := max (now s) t\<rparr>)
      | Some tm \<Rightarrow>
          if due tm \<le> t then run_until c rnd t (fire c rnd tm s)
          else Some (s\<lparr>now := max (now s) t\<rparr>))"

declare run_until.simps [code]

definition advance :: "config \<Rightarrow> (nat \<Rightarrow> real) \<Rightarrow> real \<Rightarrow> animator \<Rightarrow> animator option" where
  "advance c rnd dt s = run_until c rnd (now s + dt) s"

text \<open>The emitted-opacity history: the values passed to \<open>setIconOpacity\<close>, in order.\<close>

fun emitted :: "event list \<Rightarrow> real list" where
  "emitted [] = []"
| "emitted (Emit v # es) = v # emitted es"
| "emitted (IdleWait d # es) = emitted es"

definition history :: "animator \<Rightarrow> real list" where
  "history s = emitted (trace s)"


text \<open>Several advancements of the clock, one after the other.\<close>

fun advance_all :: "config \<Rightarrow> (nat \<Rightarrow> real) \<Rightarrow> real list \<Rightarrow> animator \<Rightarrow> animator option" where
  "advance_all c rnd [] s = Some s"
| "advance_all c rnd (dt # dts) s =
     (case advance c rnd dt s of None \<Rightarrow> None | Some s' \<Rightarrow> advance_all c rnd dts s')"

subsection \<open>The lifetime of the animator\<close>

text \<open>
  The states the animator can be in between mount and unmount, and after: the effect has
  run; a pending timer fires; time passes; the cleanup runs.
\<close>

inductive reachable :: "config \<Rightarrow> (nat \<Rightarrow> real) \<Rightarrow> animator \<Rightarrow> bool" for c rnd where
  mounted: "reachable c rnd (start c)"
| fired: "reachable c rnd s \<Longrightarrow> earliest (timers s) = Some tm \<Longrightarrow> reachable c rnd (fire c rnd tm s)"
| waited: "reachable c rnd s \<Longrightarrow> reachable c rnd (s\<lparr>now := max (now s) t\<rparr>)"
| stopped: "reachable c rnd s \<Longrightarrow> reachable c rnd (stop s)"

text \<open>
  The invariant behind the single timer: whatever is pending is one timer, and the effect
  holds its handle, in \<open>startAnimationTimeout\<close> or in \<open>glitchTimeoutRef\<close>.
\<close>

definition owned :: "animator \<Rightarrow> bool" where
  "owned s \<longleftrightarrow>
     0 < nextHandle s \<and>
     (timers s = [] \<or>
      (\<exists>tm. timers s = [tm] \<and> handle tm \<noteq> 0 \<and>
         (handle tm = startAnimationTimeout s \<or> glitchTimeoutRef s = Some (handle tm))))"

subsection \<open>The expected course of the animation\<close>

text \<open>
  The time at which burst \<open>q\<close> starts: the warm-up, then for every earlier burst its
  steps and its pause, each delay in the whole milliseconds that the timer waits.
\<close>

fun burst_start :: "config \<Rightarrow> (nat \<Rightarrow> real) \<Rightarrow> nat \<Rightarrow> real" where
  "burst_start c rnd 0 = whole_ms (warmup c)"
| "burst_start c rnd (Suc q) =
     burst_start c rnd q + real (length (glitchSteps c)) * whole_ms (stepInterval c)
       + whole_ms (randomLoopInterval c (rnd q))"

text \<open>What \<open>q\<close> whole cycles leave in the trace: each is the step list, then one pause.\<close>

fun cycles :: "config \<Rightarrow> (nat \<Rightarrow> real) \<Rightarrow> nat \<Rightarrow> event list" where
  "cycles c rnd 0 = []"
| "cycles c rnd (Suc q) =
     cycles c rnd q @ map Emit (glitchSteps c) @ [IdleWait (randomLoopInterval c (rnd q))]"

text \<open>
  The state once step \<open>i\<close> of burst \<open>q\<close> has run, and the timer it leaves pending
  (step \<open>length (glitchSteps c)\<close> is the one that starts the pause).
\<close>

definition pending :: "config \<Rightarrow> (nat \<Rightarrow> real) \<Rightarrow> nat \<Rightarrow> nat \<Rightarrow> timer" where
  "pending c rnd q i =
     \<lparr>handle = q * Suc (length (glitchSteps c)) + i + 2,
      due = (if i < length (glitchSteps c)
             then burst_start c rnd q + real (Suc i) * whole_ms (stepInterval c)
             else burst_start c rnd (Suc q)),
      cb = (if i < length (glitchSteps c) then AnimateNextStep else RunFullGlitchSequence)\<rparr>"

definition phase_state :: "config \<Rightarrow> (nat \<Rightarrow> real) \<Rightarrow> nat \<Rightarrow> nat \<Rightarrow> animator" where
  "phase_state c rnd q i =
     \<lparr>now = burst_start c rnd q + real i * whole_ms (stepInterval c),
      timers = [pending c rnd q i],
      nextHandle = q * Suc (length (glitchSteps c)) + i + 3,
      iconOpacity = (if glitchSteps c = [] then 0
                     else glitchSteps c ! min i (length (glitchSteps c) - 1)),
      glitchTimeoutRef = Some (q * Suc (length (glitchSteps c)) + i + 2),
      startAnimationTimeout = 1,
      currentStepInSequence = min (Suc i) (length (glitchSteps c)),
      draws = (if i < length (glitchSteps c) then q else Suc q),
      trace = cycles c rnd q @ map Emit (take (Suc i) (glitchSteps c))
                @ (if i < length (glitchSteps c) then []
                   else [IdleWait (randomLoopInterval c (rnd q))])\<rparr>"

section \<open>The application shell (\<open>App\<close>)\<close>

text \<open>
  \<open>App\<close> keeps the background colour of the control panel, a ref to the renderer and the
  model scale. A colour is what \<open>new THREE.Color(bgColor)\<close> builds from the string.
\<close>

datatype color = Color string

record renderer =
  clearColor :: color

definition setClearColor :: "color \<Rightarrow> renderer \<Rightarrow> renderer" where
  "setClearColor col gl = gl\<lparr>clearColor := col\<rparr>"

record app =
  bgColor :: string
  rendererRef :: "renderer option"
  modelScale :: real

text \<open>The first render: the defaults of \<open>useControls\<close>, \<open>useRef\<close> and \<open>useState\<close>.\<close>

definition app_initial :: app where
  "app_initial = \<lparr>bgColor = ''#ffffff'', rendererRef = None, modelScale = 2.6\<rparr>"

text \<open>The effect on \<open>[bgColor]\<close>.\<close>

definition bgColorEffect :: "app \<Rightarrow> app" where
  "bgColorEffect s =
     (case rendererRef s of
        None \<Rightarrow> s
      | Some gl \<Rightarrow> s\<lparr>rendererRef := Some (setClearColor (Color (bgColor s)) gl)\<rparr>)"

text \<open>
  \<open>onCreated\<close> of the canvas, called with the renderer \<open>gl\<close> it has made; the closure
  is the one of the render in which the canvas makes the renderer, so it reads the
  background colour of that moment.
\<close>

definition onCreated :: "renderer \<Rightarrow> app \<Rightarrow> app" where
  "onCreated gl s = s\<lparr>rendererRef := Some (setClearColor (Color (bgColor s)) gl)\<rparr>"

text \<open>\<open>handleResize\<close>, for the \<open>window.innerWidth\<close> it reads.\<close>

definition handleResize :: "int \<Rightarrow> app \<Rightarrow> app" where
  "handleResize innerWidth s =
     (let isSmallScreen = innerWidth \<le> 768
      in s\<lparr>modelScale := (if isSmallScreen then 2.08 else 2.6)\<rparr>)"

text \<open>
  The effects that run on mount: the one on \<open>[bgColor]\<close>, then the one that does the
  initial check of the width and adds the listener.
\<close>

definition app_mount :: "int \<Rightarrow> app" where
  "app_mount innerWidth = handleResize innerWidth (bgColorEffect app_initial)"

text \<open>
  What happens to a mounted \<open>App\<close>: the control panel sets the background colour (the
  effect on \<open>[bgColor]\<close> runs again when the value differs from the last one), the canvas
  reports its renderer, or the window is resized to a width.
\<close>

datatype app_event = SetBgColor string | CanvasCreated renderer | Resize int

fun app_step :: "app_event \<Rightarrow> app \<Rightarrow> app" where
  "app_step (SetBgColor v) s = (if v = bgColor s then s else bgColorEffect (s\<lparr>bgColor := v\<rparr>))"
| "app_step (CanvasCreated gl) s = onCreated gl s"
| "app_step (Resize w) s = handleResize w s"

fun app_run :: "app_event list \<Rightarrow> app \<Rightarrow> app" where
  "app_run [] s = s"
| "app_run (e # es) s = app_run es (app_step e s)"

text \<open>The background colours set by a list of events, in order.\<close>

fun bg_changes :: "app_event list \<Rightarrow> string list" where
  "bg_changes [] = []"
| "bg_changes (SetBgColor v # es) = v # bg_changes es"
| "bg_changes (CanvasCreated gl # es) = bg_changes es"
| "bg_changes (Resize w # es) = bg_changes es"

text \<open>The renderer, once there is one, shows the background colour that \<open>App\<close> holds.\<close>

definition renderer_in_step :: "app \<Rightarrow> bool" where
  "renderer_in_step s \<longleftrightarrow>
     (case rendererRef s of None \<Rightarrow> True | Some gl \<Rightarrow> clearColor gl = Color (bgColor s))"

section \<open>The model component (\<open>Helmet\<close>)\<close>

text \<open>
  The nodes of the loaded asset, in the order in which \<open>for (const nodeName in nodes)\<close>
  visits them; a node is a \<open>THREE.Mesh\<close> or it is not.
\<close>

datatype 'm node = Mesh 'm | NotMesh

fun is_mesh :: "'m node \<Rightarrow> bool" where
  "is_mesh (Mesh m) = True"
| "is_mesh NotMesh = False"

text \<open>The loop with its \<open>break\<close>.\<close>

fun firstMesh :: "(string \<times> 'm node) list \<Rightarrow> 'm option" where
  "firstMesh [] = None"
| "firstMesh ((nodeName, Mesh m) # rest) = Some m"
| "firstMesh ((nodeName, NotMesh) # rest) = firstMesh rest"

text \<open>The element that \<open>Helmet\<close> returns, and what it writes to the console.\<close>

datatype ('p, 'm) jsx =
    Group 'p "('p, 'm) jsx list"
  | Primitive 'm bool real "real \<times> real \<times> real" "real \<times> real \<times> real" real

record ('p, 'm) rendering =
  element :: "('p, 'm) jsx option"
  console :: "string list"

definition Helmet :: "'p \<Rightarrow> (string \<times> 'm node) list \<Rightarrow> ('p, 'm) rendering" where
  "Helmet props nodes =
     (case firstMesh nodes of
        None \<Rightarrow> \<lparr>element = None, console = [''No mesh found in elegant_g.glb'']\<rparr>
      | Some m \<Rightarrow>
          \<lparr>element = Some (Group props [Primitive m True 0.15 (0, 0, 0) (0, 0, 0) 1]),
           console = []\<rparr>)"


section \<open>Properties of the rounding\<close>

lemma rne_of_int [simp]: "rne (of_int k) = k"
  by (simp add: rne_def)

lemma rne_floor_le: "\<lfloor>x\<rfloor> \<le> rne x"
  by (simp add: rne_def Let_def)

lemma rne_le_floor_Suc: "rne x \<le> \<lfloor>x\<rfloor> + 1"
  by (simp add: rne_def Let_def)

lemma rne_mono:
  assumes "x \<le> y"
  shows "rne x \<le> rne y"
proof (cases "\<lfloor>x\<rfloor> = \<lfloor>y\<rfloor>")
  case True
  with assms have "x - of_int \<lfloor>x\<rfloor> \<le> y - of_int \<lfloor>y\<rfloor>" by simp
  with True show ?thesis by (auto simp: rne_def Let_def)
next
  case False
  with assms have "\<lfloor>x\<rfloor> + 1 \<le> \<lfloor>y\<rfloor>"
    using floor_mono [OF assms] by linarith
  with rne_le_floor_Suc [of x] rne_floor_le [of y] show ?thesis by linarith
qed

lemma rne_error: "\<bar>of_int (rne x) - x\<bar> \<le> 1 / 2"
proof -
  have "of_int \<lfloor>x\<rfloor> \<le> x" "x < of_int \<lfloor>x\<rfloor> + 1" by linarith+
  then show ?thesis by (auto simp: rne_def Let_def abs_le_iff)
qed

lemma expo_le:
  assumes "x < 2 ^ m" "1 \<le> m"
  shows "expo k x \<le> int m - 1"
  using assms
proof (induction k arbitrary: x m)
  case 0
  then show ?case by simp
next
  case (Suc k)
  show ?case
  proof (cases "2 \<le> x")
    case True
    have "2 \<le> m"
    proof (rule ccontr)
      assume "\<not> 2 \<le> m"
      with Suc.prems(2) have "m = 1" by simp
      with Suc.prems(1) True show False by simp
    qed
    then obtain m' where m: "m = Suc m'" "1 \<le> m'" by (cases m) auto
    with Suc.prems have "x / 2 < 2 ^ m'" by simp
    from Suc.IH [OF this m(2)] True m show ?thesis by simp
  next
    case False
    show ?thesis
    proof (cases "x < 1")
      case True
      then have "2 * x < 2 ^ 1" by simp
      from Suc.IH [OF this] True False Suc.prems show ?thesis by simp
    next
      case False
      with \<open>\<not> 2 \<le> x\<close> Suc.prems show ?thesis by simp
    qed
  qed
qed

lemma expo_exact:
  assumes "2 ^ m \<le> x" "x < 2 ^ Suc m" "m < k"
  shows "expo k x = int m"
  using assms
proof (induction m arbitrary: k x)
  case 0
  then obtain k' where "k = Suc k'" by (cases k) auto
  with 0 show ?case by simp
next
  case (Suc m)
  then obtain k' where k: "k = Suc k'" "m < k'" by (cases k) auto
  have "(1::real) \<le> 2 ^ m" by simp
  then have "(2::real) \<le> 2 ^ Suc m" by simp
  with Suc.prems(1) have x: "2 \<le> x" by linarith
  from Suc.prems have "2 ^ m \<le> x / 2" "x / 2 < 2 ^ Suc m" by simp_all
  from Suc.IH [OF this k(2)] x k show ?case by simp
qed

lemma ulp_pos: "0 < ulp x"
  by (simp add: ulp_def)

lemma fl_pos_eq: "0 < x \<Longrightarrow> fl x = of_int (rne (x / ulp x)) * ulp x"
  by (simp add: fl_def)

lemma fl_le:
  assumes "0 < x" "x \<le> z" "z / ulp x = of_int n"
  shows "fl x \<le> z"
proof -
  have "x / ulp x \<le> z / ulp x"
    using assms(2) ulp_pos [of x] by (simp add: divide_right_mono)
  then have "rne (x / ulp x) \<le> rne (z / ulp x)" by (rule rne_mono)
  then have "rne (x / ulp x) \<le> n" by (simp add: assms(3))
  then have "of_int (rne (x / ulp x)) * ulp x \<le> of_int n * ulp x"
    using ulp_pos [of x] by simp
  also have "of_int n * ulp x = z"
    using assms(3) ulp_pos [of x] by (simp add: field_simps)
  finally show ?thesis using assms(1) by (simp add: fl_pos_eq)
qed

lemma fl_ge:
  assumes "0 < x" "z \<le> x" "z / ulp x = of_int n"
  shows "z \<le> fl x"
proof -
  have "z / ulp x \<le> x / ulp x"
    using assms(2) ulp_pos [of x] by (simp add: divide_right_mono)
  then have "rne (z / ulp x) \<le> rne (x / ulp x)" by (rule rne_mono)
  then have "n \<le> rne (x / ulp x)" by (simp add: assms(3))
  then have "of_int n * ulp x \<le> of_int (rne (x / ulp x)) * ulp x"
    using ulp_pos [of x] by simp
  moreover have "of_int n * ulp x = z"
    using assms(3) ulp_pos [of x] by (simp add: field_simps)
  ultimately show ?thesis using assms(1) by (simp add: fl_pos_eq)
qed

lemma fl_error:
  assumes "0 < x"
  shows "\<bar>fl x - x\<bar> \<le> ulp x / 2"
proof -
  have "\<bar>of_int (rne (x / ulp x)) - x / ulp x\<bar> * ulp x \<le> 1 / 2 * ulp x"
    using rne_error [of "x / ulp x"] ulp_pos [of x] by (intro mult_right_mono) simp_all
  moreover have "\<bar>of_int (rne (x / ulp x)) - x / ulp x\<bar> * ulp x = \<bar>of_int (rne (x / ulp x)) * ulp x - x\<bar>"
  proof -
    have "\<bar>of_int (rne (x / ulp x)) - x / ulp x\<bar> * ulp x
          = \<bar>(of_int (rne (x / ulp x)) - x / ulp x) * ulp x\<bar>"
      using ulp_pos [of x] by (simp add: abs_mult)
    also have "(of_int (rne (x / ulp x)) - x / ulp x) * ulp x = of_int (rne (x / ulp x)) * ulp x - x"
      using ulp_pos [of x] by (simp add: left_diff_distrib)
    finally show ?thesis .
  qed
  ultimately show ?thesis using assms by (simp add: fl_pos_eq)
qed


lemma ulp_exponent:
  assumes "\<bar>x\<bar> < 2 ^ m" "1 \<le> m"
  shows "max (- 1022) (expo 2100 \<bar>x\<bar>) \<le> int m - 1"
  using expo_le [OF assms, of 2100] assms(2) by simp

lemma int_over_ulp:
  assumes "\<bar>x\<bar> < 2 ^ m" "1 \<le> m" "m \<le> 53"
  shows "\<exists>k. of_int n / ulp x = of_int k"
proof -
  define e where "e = max (- 1022) (expo 2100 \<bar>x\<bar>)"
  have e: "e \<le> 52" using ulp_exponent [OF assms(1,2)] assms(3) by (simp add: e_def)
  have "ulp x = 2 powi (e - 52)" by (simp add: ulp_def e_def)
  also have "\<dots> = inverse (2 powi (52 - e))"
    by (simp add: power_int_minus [symmetric])
  also have "2 powi (52 - e) = (2::real) ^ nat (52 - e)"
    using e by (simp add: power_int_def)
  finally have "ulp x = inverse (2 ^ nat (52 - e))" .
  then have "of_int n / ulp x = of_int (n * 2 ^ nat (52 - e))"
    by (simp add: divide_inverse)
  then show ?thesis ..
qed

lemma ulp_le:
  assumes "\<bar>x\<bar> < 2 ^ m" "1 \<le> m"
  shows "ulp x \<le> 2 powi (int m - 53)"
proof -
  have "max (- 1022) (expo 2100 \<bar>x\<bar>) - 52 \<le> int m - 53"
    using ulp_exponent [OF assms] by simp
  then show ?thesis
    unfolding ulp_def by (intro power_int_increasing) simp_all
qed

lemma fl_between:
  assumes "0 < x" "of_int a \<le> x" "x \<le> of_int b" "x < 2 ^ m" "1 \<le> m" "m \<le> 53"
  shows "of_int a \<le> fl x \<and> fl x \<le> of_int b"
proof -
  from assms(1,4) have ax: "\<bar>x\<bar> < 2 ^ m" by simp
  from int_over_ulp [OF ax assms(5,6), of a] obtain k where "of_int a / ulp x = of_int k" ..
  with assms(1,2) have "of_int a \<le> fl x" by (rule fl_ge)
  moreover from int_over_ulp [OF ax assms(5,6), of b] obtain j where "of_int b / ulp x = of_int j" ..
  with assms(1,3) have "fl x \<le> of_int b" by (rule fl_le)
  ultimately show ?thesis ..
qed

lemma fl_of_int:
  assumes "0 < n" "of_int n < (2::real) ^ 53"
  shows "fl (of_int n) = of_int n"
proof -
  have "of_int n \<le> fl (of_int n) \<and> fl (of_int n) \<le> of_int n"
    using assms by (intro fl_between [where m = 53]) simp_all
  then show ?thesis by simp
qed

lemma fl_1000: "fl 1000 = 1000"
  using fl_of_int [of 1000] by simp

lemma randomLoopInterval_reference:
  "randomLoopInterval reference_config r = fl (fl (r * 1000) + 1500)"
  by (simp add: randomLoopInterval_def reference_config_def fl_1000)

lemma fl_scaled:
  assumes "0 \<le> r" "r < 1"
  shows "0 \<le> fl (r * 1000) \<and> fl (r * 1000) \<le> 1000 \<and> \<bar>fl (r * 1000) - r * 1000\<bar> \<le> 1 / 2 ^ 44"
proof (cases "r = 0")
  case True
  then show ?thesis by (simp add: fl_def)
next
  case False
  with assms have p: "0 < r * 1000" "r * 1000 < 1000" by simp_all
  then have "of_int 0 \<le> fl (r * 1000) \<and> fl (r * 1000) \<le> of_int 1000"
    by (intro fl_between [where m = 10]) simp_all
  moreover have "\<bar>fl (r * 1000) - r * 1000\<bar> \<le> ulp (r * 1000) / 2"
    using p(1) by (rule fl_error)
  moreover have "ulp (r * 1000) \<le> 2 powi (int 10 - 53)"
    using p by (intro ulp_le) simp_all
  then have "ulp (r * 1000) / 2 \<le> 1 / 2 ^ 44"
    by (simp add: power_int_def field_simps)
  ultimately show ?thesis by simp
qed

lemma ulp_exact:
  assumes "2 ^ m \<le> \<bar>x\<bar>" "\<bar>x\<bar> < 2 ^ Suc m" "m < 2100"
  shows "ulp x = 2 powi (int m - 52)"
  using expo_exact [OF assms] by (simp add: ulp_def)

lemma fl_eval:
  assumes "0 < x" "ulp x = u" "rne (x / u) = k"
  shows "fl x = of_int k * u"
  using assms by (simp add: fl_pos_eq)

text \<open>
  C5, amended. For every value \<open>r\<close> in \<open>[0, 1)\<close> that the random source returns, the pause
  computed between two bursts lies in the closed range from 1500 to 2500 ms of the
  reference configuration, and it differs from \<open>1500 + 1000 * r\<close>, the point that divides
  the range as \<open>r\<close> divides \<open>[0, 1)\<close>, by at most \<open>1 / 2 ^ 41\<close> ms. The upper end is
  not excluded: for \<open>r = 1 - 1 / 2 ^ 52\<close>, itself a binary64 value, the two roundings
  give exactly 2500.
\<close>

theorem idle_wait_range:
  assumes "0 \<le> r" "r < 1"
  shows "1500 \<le> randomLoopInterval reference_config r \<and>
         randomLoopInterval reference_config r \<le> 2500 \<and>
         \<bar>randomLoopInterval reference_config r - (r * 1000 + 1500)\<bar> \<le> 1 / 2 ^ 41"
proof -
  let ?y = "fl (r * 1000)"
  from fl_scaled [OF assms] have y: "0 \<le> ?y" "?y \<le> 1000" "\<bar>?y - r * 1000\<bar> \<le> 1 / 2 ^ 44"
    by simp_all
  then have x: "0 < ?y + 1500" "of_int 1500 \<le> ?y + 1500" "?y + 1500 \<le> of_int 2500" "?y + 1500 < 2 ^ 12"
    by simp_all
  then have b: "of_int 1500 \<le> fl (?y + 1500) \<and> fl (?y + 1500) \<le> of_int 2500"
    by (intro fl_between [where m = 12]) simp_all
  have "\<bar>fl (?y + 1500) - (?y + 1500)\<bar> \<le> ulp (?y + 1500) / 2"
    using x(1) by (rule fl_error)
  moreover have "ulp (?y + 1500) \<le> 2 powi (int 12 - 53)"
    using x by (intro ulp_le) simp_all
  then have "ulp (?y + 1500) / 2 \<le> 1 / 2 ^ 42"
    by (simp add: power_int_def field_simps)
  ultimately have "\<bar>fl (?y + 1500) - (?y + 1500)\<bar> \<le> 1 / 2 ^ 42" by simp
  with y(3) have "\<bar>fl (?y + 1500) - (r * 1000 + 1500)\<bar> \<le> 1 / 2 ^ 44 + 1 / 2 ^ 42" by linarith
  also have "\<dots> \<le> (1::real) / 2 ^ 41" by simp
  finally show ?thesis using b by (simp add: randomLoopInterval_reference)
qed

theorem idle_wait_range_witness:
  "1500 \<le> randomLoopInterval reference_config (1 / 2) \<and>
   randomLoopInterval reference_config (1 / 2) \<le> 2500 \<and>
   \<bar>randomLoopInterval reference_config (1 / 2) - (1 / 2 * 1000 + 1500)\<bar> \<le> 1 / 2 ^ 41"
  using idle_wait_range [of "1 / 2"] by simp

lemma expo_half: "1 / 2 \<le> x \<Longrightarrow> x < 1 \<Longrightarrow> expo (Suc (Suc k)) x = - 1"
  by simp

theorem idle_wait_range_counterexample:
  "0 \<le> (1 - 1 / 2 ^ 52 :: real) \<and> (1 - 1 / 2 ^ 52 :: real) < 1 \<and>
   fl (1 - 1 / 2 ^ 52) = 1 - 1 / 2 ^ 52 \<and>
   randomLoopInterval reference_config (1 - 1 / 2 ^ 52) = 2500 \<and>
   \<not> randomLoopInterval reference_config (1 - 1 / 2 ^ 52) < maxPause reference_config"
proof -
  let ?r = "1 - 1 / 2 ^ 52 :: real"
  have "expo (Suc (Suc 2098)) \<bar>?r\<bar> = - 1"
    by (rule expo_half) simp_all
  then have u0: "ulp ?r = 1 / 2 ^ 53"
    by (simp add: ulp_def power_int_def field_simps)
  have r0: "rne (?r / (1 / 2 ^ 53)) = 2 ^ 53 - 2"
    by (simp add: rne_def Let_def)
  have "fl ?r = of_int (2 ^ 53 - 2) * (1 / 2 ^ 53)"
    using _ u0 r0 by (rule fl_eval) simp
  then have r: "fl ?r = ?r" by simp
  let ?p = "(1 - 1 / 2 ^ 52) * 1000 :: real"
  have "ulp ?p = 2 powi (int 9 - 52)"
    by (rule ulp_exact) simp_all
  then have u1: "ulp ?p = 1 / 2 ^ 43"
    by (simp add: power_int_def field_simps)
  have r1: "rne (?p / (1 / 2 ^ 43)) = 1000 * 2 ^ 43 - 2"
    by (simp add: rne_def Let_def)
  have "fl ?p = of_int (1000 * 2 ^ 43 - 2) * (1 / 2 ^ 43)"
    using _ u1 r1 by (rule fl_eval) simp
  then have y: "fl ?p = 1000 - 1 / 2 ^ 42" by simp
  let ?x = "1000 - 1 / 2 ^ 42 + 1500 :: real"
  have "ulp ?x = 2 powi (int 11 - 52)"
    by (rule ulp_exact) simp_all
  then have u2: "ulp ?x = 1 / 2 ^ 41"
    by (simp add: power_int_def field_simps)
  have r2: "rne (?x / (1 / 2 ^ 41)) = 2500 * 2 ^ 41"
    by (simp add: rne_def Let_def)
  have "fl ?x = of_int (2500 * 2 ^ 41) * (1 / 2 ^ 41)"
    using _ u2 r2 by (rule fl_eval) simp
  then have x: "fl ?x = 2500" by simp
  have "randomLoopInterval reference_config ?r = fl (fl ?p + 1500)"
    by (simp only: randomLoopInterval_reference)
  also have "\<dots> = fl ?x" by (simp only: y)
  also note x
  finally have "randomLoopInterval reference_config ?r = 2500" .
  with r show ?thesis by (simp add: reference_config_def)
qed

section \<open>Properties of the glitch animator\<close>

lemma whole_ms_nonneg: "0 \<le> whole_ms x"
  by (simp add: whole_ms_def)

lemma whole_ms_Ints: "x \<in> \<int> \<Longrightarrow> 0 \<le> x \<Longrightarrow> whole_ms x = x"
  by (auto simp: whole_ms_def max_def elim: Ints_cases)

lemma whole_ms_pos: "1 \<le> x \<Longrightarrow> 0 < whole_ms x"
proof -
  assume "1 \<le> x"
  then have "1 \<le> \<lfloor>max 0 x\<rfloor>" by (simp add: le_floor_iff)
  then show ?thesis by (simp add: whole_ms_def)
qed

lemma owned_start: "owned (start c)"
  by (simp add: owned_def start_def unmounted_def setTimeout_def)

lemma timers_animateNextStep:
  "timers (animateNextStep c rnd s) =
     timers s @ [\<lparr>handle = nextHandle s,
                  due = now s + whole_ms (if currentStepInSequence s < length (glitchSteps c)
                                          then stepInterval c
                                          else randomLoopInterval c (rnd (draws s))),
                  cb = (if currentStepInSequence s < length (glitchSteps c)
                        then AnimateNextStep else RunFullGlitchSequence)\<rparr>]"
  by (simp add: animateNextStep_def setTimeout_def Let_def)

lemma ref_animateNextStep: "glitchTimeoutRef (animateNextStep c rnd s) = Some (nextHandle s)"
  by (simp add: animateNextStep_def setTimeout_def Let_def)

lemma nextHandle_animateNextStep: "nextHandle (animateNextStep c rnd s) = Suc (nextHandle s)"
  by (simp add: animateNextStep_def setTimeout_def Let_def)

lemma timers_run_callback:
  "length (timers (run_callback c rnd f s)) = Suc (length (timers s))"
  by (cases f)
     (simp_all add: run_callback_def startAnimation_def runFullGlitchSequence_def
        timers_animateNextStep)

lemma owned_run_callback:
  assumes "timers s = []" "0 < nextHandle s"
  shows "owned (run_callback c rnd f s)"
  using assms
  by (cases f)
     (simp_all add: owned_def run_callback_def startAnimation_def runFullGlitchSequence_def
        timers_animateNextStep ref_animateNextStep nextHandle_animateNextStep)

lemma owned_fire:
  assumes "owned s" "earliest (timers s) = Some tm"
  shows "owned (fire c rnd tm s)"
proof -
  from assms obtain "timers s = [tm]" "0 < nextHandle s"
    by (auto simp: owned_def)
  then show ?thesis
    unfolding fire_def by (intro owned_run_callback) simp_all
qed

lemma timers_stop:
  assumes "owned s"
  shows "timers (stop s) = []"
  using assms
  by (auto simp: owned_def stop_def clearTimeout_def Let_def split: option.splits)

lemma owned_stop: "owned s \<Longrightarrow> owned (stop s)"
  using timers_stop [of s]
  by (auto simp: owned_def stop_def clearTimeout_def Let_def split: option.splits)

lemma reachable_owned: "reachable c rnd s \<Longrightarrow> owned s"
proof (induction rule: reachable.induct)
  case mounted
  show ?case by (rule owned_start)
next
  case (fired s tm)
  then show ?case by (simp add: owned_fire)
next
  case (waited s t)
  then show ?case by (simp add: owned_def)
next
  case (stopped s)
  then show ?case by (simp add: owned_stop)
qed

lemma run_until_reachable:
  assumes "run_until c rnd t s = Some s'" and "reachable c rnd s"
  shows "reachable c rnd s'"
proof -
  have "reachable c rnd s \<longrightarrow> reachable c rnd s'"
  proof (rule run_until.raw_induct
      [where P = "\<lambda>c rnd t s y. reachable c rnd s \<longrightarrow> reachable c rnd y", OF _ assms(1)],
      goal_cases)
    case (1 f c rnd t s s')
    show ?case
    proof
      assume r: "reachable c rnd s"
      show "reachable c rnd s'"
      proof (cases "earliest (timers s)")
        case None
        with 1(2) have "s' = s\<lparr>now := max (now s) t\<rparr>" by simp
        with r show ?thesis by (simp add: reachable.waited)
      next
        case (Some tm)
        show ?thesis
        proof (cases "due tm \<le> t")
          case True
          with Some 1(2) have "f c rnd t (fire c rnd tm s) = Some s'" by simp
          from 1(1) [OF this] r Some show ?thesis by (simp add: reachable.fired)
        next
          case False
          with Some 1(2) have "s' = s\<lparr>now := max (now s) t\<rparr>" by simp
          with r show ?thesis by (simp add: reachable.waited)
        qed
      qed
    qed
  qed
  with assms(2) show ?thesis by simp
qed

lemma run_until_idle:
  "timers s = [] \<Longrightarrow> run_until c rnd t s = Some (s\<lparr>now := max (now s) t\<rparr>)"
  by (subst run_until.simps) simp

lemma advance_all_idle:
  "timers s = [] \<Longrightarrow> \<exists>t. advance_all c rnd dts s = Some (s\<lparr>now := t\<rparr>)"
proof (induction dts arbitrary: s)
  case Nil
  have "s = s\<lparr>now := now s\<rparr>" by simp
  then show ?case by (metis advance_all.simps(1))
next
  case (Cons dt dts)
  let ?s = "s\<lparr>now := max (now s) (now s + dt)\<rparr>"
  from Cons.prems have "advance c rnd dt s = Some ?s"
    by (simp add: advance_def run_until_idle)
  moreover from Cons.prems have "timers ?s = []" by simp
  from Cons.IH [OF this] obtain t where "advance_all c rnd dts ?s = Some (?s\<lparr>now := t\<rparr>)" ..
  ultimately show ?case by auto
qed

lemma earliest_single [simp]: "earliest [tm] = Some tm"
  by simp

lemma fire_start:
  assumes "0 \<le> whole_ms (warmup c)" "0 \<le> whole_ms (stepInterval c)"
    "glitchSteps c = [] \<longrightarrow> 0 \<le> whole_ms (randomLoopInterval c (rnd 0))"
  shows "fire c rnd \<lparr>handle = 1, due = whole_ms (warmup c), cb = StartAnimation\<rparr> (start c) = phase_state c rnd 0 0"
  using assms
  by (cases "glitchSteps c")
     (simp_all add: fire_def start_def unmounted_def setTimeout_def run_callback_def
      startAnimation_def runFullGlitchSequence_def animateNextStep_def phase_state_def
      pending_def Let_def max_def)

lemma fire_emit:
  assumes "Suc i < length (glitchSteps c)" "0 \<le> whole_ms (stepInterval c)"
  shows "fire c rnd (pending c rnd q i) (phase_state c rnd q i) = phase_state c rnd q (Suc i)"
proof -
  from assms have "glitchSteps c \<noteq> []" by auto
  with assms show ?thesis
    by (simp add: fire_def setTimeout_def run_callback_def animateNextStep_def phase_state_def
      pending_def Let_def max_def take_Suc_conv_app_nth algebra_simps)
qed

lemma fire_last:
  assumes "length (glitchSteps c) = Suc i" "0 \<le> whole_ms (stepInterval c)" "0 \<le> whole_ms (randomLoopInterval c (rnd q))"
  shows "fire c rnd (pending c rnd q i) (phase_state c rnd q i) = phase_state c rnd q (Suc i)"
proof -
  from assms have "glitchSteps c \<noteq> []" by auto
  with assms show ?thesis
  by (simp add: fire_def setTimeout_def run_callback_def animateNextStep_def phase_state_def
      pending_def Let_def max_def algebra_simps)
qed

lemma fire_restart:
  assumes "0 \<le> whole_ms (stepInterval c)" "0 \<le> whole_ms (randomLoopInterval c (rnd q))"
     "0 \<le> whole_ms (randomLoopInterval c (rnd (Suc q)))"
  shows "fire c rnd (pending c rnd q (length (glitchSteps c))) (phase_state c rnd q (length (glitchSteps c))) = phase_state c rnd (Suc q) 0"
  using assms
  by (cases "glitchSteps c")
   (simp_all add: fire_def setTimeout_def run_callback_def animateNextStep_def phase_state_def
      runFullGlitchSequence_def
      pending_def Let_def max_def take_Suc_conv_app_nth algebra_simps)


lemma emitted_append: "emitted (es @ fs) = emitted es @ emitted fs"
  by (induction es rule: emitted.induct) simp_all

lemma emitted_map_Emit: "emitted (map Emit vs) = vs"
  by (induction vs) simp_all

lemma emitted_cycles: "emitted (cycles c rnd q) = concat (replicate q (glitchSteps c))"
proof (induction q)
  case 0
  show ?case by simp
next
  case (Suc q)
  have "replicate (Suc q) (glitchSteps c) = replicate q (glitchSteps c) @ [glitchSteps c]"
    by (simp add: replicate_append_same)
  then have "concat (replicate (Suc q) (glitchSteps c)) = concat (replicate q (glitchSteps c)) @ glitchSteps c"
    by (simp only: concat_append) simp
  with Suc show ?case by (simp add: emitted_append emitted_map_Emit)
qed

lemma timers_start:
  "0 \<le> whole_ms (warmup c) \<Longrightarrow> timers (start c) = [\<lparr>handle = 1, due = whole_ms (warmup c), cb = StartAnimation\<rparr>]"
  by (simp add: start_def unmounted_def setTimeout_def)

lemma now_start: "now (start c) = 0"
  by (simp add: start_def unmounted_def setTimeout_def)

lemma trace_start: "trace (start c) = []"
  by (simp add: start_def unmounted_def setTimeout_def)

lemma run_before_warmup:
  assumes "0 \<le> whole_ms (warmup c)" "t < whole_ms (warmup c)"
  shows "run_until c rnd t (start c) = Some ((start c)\<lparr>now := max 0 t\<rparr>)"
  using assms by (subst run_until.simps) (simp add: timers_start now_start)

lemma run_warmup:
  assumes "0 \<le> whole_ms (warmup c)" "whole_ms (warmup c) \<le> t" "0 \<le> whole_ms (stepInterval c)"
    "glitchSteps c = [] \<longrightarrow> 0 \<le> whole_ms (randomLoopInterval c (rnd 0))"
  shows "run_until c rnd t (start c) = run_until c rnd t (phase_state c rnd 0 0)"
proof -
  have "fire c rnd \<lparr>handle = 1, due = whole_ms (warmup c), cb = StartAnimation\<rparr> (start c) = phase_state c rnd 0 0"
    using assms(1,3,4) by (rule fire_start)
  with assms show ?thesis
    by (subst run_until.simps) (simp add: timers_start)
qed

lemma run_pass:
  assumes "due (pending c rnd q i) \<le> t"
  shows "run_until c rnd t (phase_state c rnd q i) =
         run_until c rnd t (fire c rnd (pending c rnd q i) (phase_state c rnd q i))"
  using assms by (subst run_until.simps) (simp add: phase_state_def)

lemma run_halt:
  assumes "t < due (pending c rnd q i)"
  shows "run_until c rnd t (phase_state c rnd q i) =
         Some ((phase_state c rnd q i)\<lparr>now := max (now (phase_state c rnd q i)) t\<rparr>)"
  using assms by (subst run_until.simps) (simp add: phase_state_def)

lemma fire_step:
  assumes "i < length (glitchSteps c)" "0 \<le> whole_ms (stepInterval c)"
    "Suc i = length (glitchSteps c) \<longrightarrow> 0 \<le> whole_ms (randomLoopInterval c (rnd q))"
  shows "fire c rnd (pending c rnd q i) (phase_state c rnd q i) = phase_state c rnd q (Suc i)"
proof (cases "Suc i < length (glitchSteps c)")
  case True
  then show ?thesis using assms by (simp add: fire_emit)
next
  case False
  with assms have "length (glitchSteps c) = Suc i" by simp
  then show ?thesis using assms by (simp add: fire_last)
qed

lemma run_burst:
  assumes d: "0 \<le> whole_ms (stepInterval c)"
    and p: "k = length (glitchSteps c) \<longrightarrow> 0 \<le> whole_ms (randomLoopInterval c (rnd q))"
    and k: "k \<le> length (glitchSteps c)"
    and t: "burst_start c rnd q + real k * whole_ms (stepInterval c) \<le> t"
  shows "run_until c rnd t (phase_state c rnd q 0) = run_until c rnd t (phase_state c rnd q k)"
  using p k t
proof (induction k)
  case 0
  show ?case by simp
next
  case (Suc k)
  have le: "real k * whole_ms (stepInterval c) \<le> real (Suc k) * whole_ms (stepInterval c)"
    using d by (simp add: mult_right_mono)
  from Suc.prems have klt: "k < length (glitchSteps c)" by simp
  have "run_until c rnd t (phase_state c rnd q 0) = run_until c rnd t (phase_state c rnd q k)"
    using Suc.prems le by (intro Suc.IH) simp_all
  also have "\<dots> = run_until c rnd t (fire c rnd (pending c rnd q k) (phase_state c rnd q k))"
    using Suc.prems klt by (intro run_pass) (simp add: pending_def)
  also have "fire c rnd (pending c rnd q k) (phase_state c rnd q k) = phase_state c rnd q (Suc k)"
    using klt d Suc.prems(1) by (intro fire_step) simp_all
  finally show ?case .
qed

lemma burst_start_mono:
  assumes "0 \<le> whole_ms (stepInterval c)" "\<forall>q. 0 \<le> whole_ms (randomLoopInterval c (rnd q))"
  shows "burst_start c rnd q \<le> burst_start c rnd (Suc q)"
  using assms by simp

lemma warmup_le_burst_start:
  assumes "0 \<le> whole_ms (stepInterval c)" "\<forall>q. 0 \<le> whole_ms (randomLoopInterval c (rnd q))"
  shows "whole_ms (warmup c) \<le> burst_start c rnd q"
proof (induction q)
  case 0
  show ?case by simp
next
  case (Suc q)
  from assms have "burst_start c rnd q \<le> burst_start c rnd (Suc q)" by (rule burst_start_mono)
  with Suc show ?case by simp
qed

lemma run_cycle:
  assumes d: "0 \<le> whole_ms (stepInterval c)"
    and p: "\<forall>q. 0 \<le> whole_ms (randomLoopInterval c (rnd q))"
    and t: "burst_start c rnd (Suc q) \<le> t"
  shows "run_until c rnd t (phase_state c rnd q 0) = run_until c rnd t (phase_state c rnd (Suc q) 0)"
proof -
  let ?n = "length (glitchSteps c)"
  from p have pq: "0 \<le> whole_ms (randomLoopInterval c (rnd q))" "0 \<le> whole_ms (randomLoopInterval c (rnd (Suc q)))"
    by simp_all
  have "burst_start c rnd q + real ?n * whole_ms (stepInterval c) \<le> t"
    using t pq by simp
  then have "run_until c rnd t (phase_state c rnd q 0) = run_until c rnd t (phase_state c rnd q ?n)"
    using d pq by (intro run_burst) simp_all
  also have "\<dots> = run_until c rnd t (fire c rnd (pending c rnd q ?n) (phase_state c rnd q ?n))"
    using t by (intro run_pass) (simp add: pending_def)
  also have "fire c rnd (pending c rnd q ?n) (phase_state c rnd q ?n) = phase_state c rnd (Suc q) 0"
    using d pq by (rule fire_restart)
  finally show ?thesis .
qed

lemma run_cycles:
  assumes d: "0 \<le> whole_ms (stepInterval c)"
    and p: "\<forall>q. 0 \<le> whole_ms (randomLoopInterval c (rnd q))"
    and t: "burst_start c rnd q \<le> t"
  shows "run_until c rnd t (phase_state c rnd 0 0) = run_until c rnd t (phase_state c rnd q 0)"
  using t
proof (induction q)
  case 0
  show ?case by simp
next
  case (Suc q)
  have "burst_start c rnd q \<le> burst_start c rnd (Suc q)"
    using d p by (rule burst_start_mono)
  with Suc.prems have "run_until c rnd t (phase_state c rnd 0 0) = run_until c rnd t (phase_state c rnd q 0)"
    by (intro Suc.IH) simp
  also have "\<dots> = run_until c rnd t (phase_state c rnd (Suc q) 0)"
    using d p Suc.prems by (rule run_cycle)
  finally show ?case .
qed

text \<open>The run up to step \<open>k\<close> of burst \<open>q\<close>.\<close>

lemma run_to_step:
  assumes w: "0 \<le> whole_ms (warmup c)" and d: "0 < whole_ms (stepInterval c)"
    and p: "\<forall>q. 0 \<le> whole_ms (randomLoopInterval c (rnd q))"
    and k: "k < length (glitchSteps c)"
  shows "run_until c rnd (burst_start c rnd q + real k * whole_ms (stepInterval c)) (start c) =
         Some (phase_state c rnd q k)"
proof -
  let ?t = "burst_start c rnd q + real k * whole_ms (stepInterval c)"
  have d0: "0 \<le> whole_ms (stepInterval c)" using d by simp
  have kd: "0 \<le> real k * whole_ms (stepInterval c)" using d0 by simp
  have "whole_ms (warmup c) \<le> burst_start c rnd q" by (rule warmup_le_burst_start [OF d0 p])
  with kd have wt: "whole_ms (warmup c) \<le> ?t" by simp
  have "run_until c rnd ?t (start c) = run_until c rnd ?t (phase_state c rnd 0 0)"
    using w wt d0 p by (intro run_warmup) simp_all
  also have "\<dots> = run_until c rnd ?t (phase_state c rnd q 0)"
    using d0 p kd by (intro run_cycles) simp_all
  also have "\<dots> = run_until c rnd ?t (phase_state c rnd q k)"
    using d0 k by (intro run_burst) simp_all
  also have "\<dots> = Some ((phase_state c rnd q k)\<lparr>now := max (now (phase_state c rnd q k)) ?t\<rparr>)"
    using k d by (intro run_halt) (simp add: pending_def algebra_simps)
  also have "(phase_state c rnd q k)\<lparr>now := max (now (phase_state c rnd q k)) ?t\<rparr> = phase_state c rnd q k"
    by (simp add: phase_state_def)
  finally show ?thesis .
qed


lemma advance_all_reachable:
  "advance_all c rnd dts s = Some s' \<Longrightarrow> reachable c rnd s \<Longrightarrow> reachable c rnd s'"
proof (induction dts arbitrary: s)
  case Nil
  then show ?case by simp
next
  case (Cons dt dts)
  from Cons.prems(1) obtain s1 where a: "advance c rnd dt s = Some s1"
    and b: "advance_all c rnd dts s1 = Some s'"
    by (auto split: option.splits)
  from a Cons.prems(2) have "reachable c rnd s1"
    unfolding advance_def by (rule run_until_reachable)
  with b show ?case by (rule Cons.IH)
qed

lemma owned_length: "owned s \<Longrightarrow> length (timers s) \<le> 1"
  by (auto simp: owned_def)

text \<open>
  C7. At every point of the animator's lifetime at most one timer is pending: in every
  reachable state, and in every state that advancing the clock leads to from there. Each
  callback sets exactly one timer, after the one that called it has gone, so the timers
  of the warm-up, of a step and of a pause never coexist.
\<close>

theorem one_pending_timer:
  assumes "reachable c rnd s"
  shows "length (timers s) \<le> 1 \<and>
         (\<forall>f s0. length (timers (run_callback c rnd f s0)) = Suc (length (timers s0))) \<and>
         (\<forall>dts s'. advance_all c rnd dts s = Some s' \<longrightarrow> length (timers s') \<le> 1)"
proof -
  have "length (timers s') \<le> 1" if "advance_all c rnd dts s = Some s'" for dts s'
  proof -
    from that assms have "reachable c rnd s'" by (rule advance_all_reachable)
    then have "owned s'" by (rule reachable_owned)
    then show ?thesis by (rule owned_length)
  qed
  moreover have "length (timers s) \<le> 1"
    using assms by (intro owned_length reachable_owned)
  ultimately show ?thesis by (simp add: timers_run_callback)
qed

lemma reachable_first_step:
  "reachable reference_config rnd
     (fire reference_config rnd \<lparr>handle = 1, due = 2000, cb = StartAnimation\<rparr>
        (start reference_config))"
proof -
  have "earliest (timers (start reference_config)) = Some \<lparr>handle = 1, due = 2000, cb = StartAnimation\<rparr>"
    by (simp add: timers_start whole_ms_def reference_config_def)
  with reachable.mounted show ?thesis by (rule reachable.fired)
qed

theorem one_pending_timer_witness:
  "reachable reference_config (constant_source 0)
     (fire reference_config (constant_source 0) \<lparr>handle = 1, due = 2000, cb = StartAnimation\<rparr>
        (start reference_config)) \<and>
   length (timers (fire reference_config (constant_source 0) \<lparr>handle = 1, due = 2000, cb = StartAnimation\<rparr>
        (start reference_config))) \<le> 1"
  using one_pending_timer [OF reachable_first_step [of "constant_source 0"]] reachable_first_step [of "constant_source 0"]
  by simp

text \<open>
  C2. After \<open>stop\<close> (the cleanup of the effect), called in any reachable state, no timer
  is pending, whichever kind it was; \<open>stop\<close> itself emits nothing, and however the clock
  is advanced afterwards, the state stays as \<open>stop\<close> left it but for the clock: no
  emission, no change of the opacity. Calling \<open>stop\<close> when nothing is pending, as after
  a first \<open>stop\<close>, changes nothing.
\<close>

theorem stop_cancels:
  assumes "reachable c rnd s"
  shows "timers (stop s) = [] \<and> trace (stop s) = trace s \<and> iconOpacity (stop s) = iconOpacity s \<and>
         stop (stop s) = stop s \<and>
         (\<exists>t. advance_all c rnd dts (stop s) = Some ((stop s)\<lparr>now := t\<rparr>))"
proof -
  have o: "owned s" using assms by (rule reachable_owned)
  then have t: "timers (stop s) = []" by (rule timers_stop)
  have "stop (stop s) = stop s"
    using t by (simp add: stop_def [of "stop s"] clearTimeout_def Let_def split: option.splits)
  moreover have "trace (stop s) = trace s" "iconOpacity (stop s) = iconOpacity s"
    by (simp_all add: stop_def clearTimeout_def Let_def split: option.splits)
  ultimately show ?thesis using t advance_all_idle [OF t] by simp
qed

theorem stop_cancels_witness:
  "reachable reference_config (constant_source 0)
     (fire reference_config (constant_source 0) \<lparr>handle = 1, due = 2000, cb = StartAnimation\<rparr>
        (start reference_config)) \<and>
   timers (fire reference_config (constant_source 0) \<lparr>handle = 1, due = 2000, cb = StartAnimation\<rparr>
        (start reference_config)) = [\<lparr>handle = 2, due = 2075, cb = AnimateNextStep\<rparr>] \<and>
   timers (stop (fire reference_config (constant_source 0) \<lparr>handle = 1, due = 2000, cb = StartAnimation\<rparr>
        (start reference_config))) = [] \<and>
   (\<exists>t. advance_all reference_config (constant_source 0) [100000, 5]
          (stop (fire reference_config (constant_source 0) \<lparr>handle = 1, due = 2000, cb = StartAnimation\<rparr>
             (start reference_config)))
        = Some ((stop (fire reference_config (constant_source 0) \<lparr>handle = 1, due = 2000, cb = StartAnimation\<rparr>
             (start reference_config)))\<lparr>now := t\<rparr>))"
proof -
  have "timers (fire reference_config (constant_source 0) \<lparr>handle = 1, due = 2000, cb = StartAnimation\<rparr>
        (start reference_config)) = [\<lparr>handle = 2, due = 2075, cb = AnimateNextStep\<rparr>]"
    by (simp add: fire_def run_callback_def startAnimation_def runFullGlitchSequence_def
        timers_animateNextStep start_def unmounted_def setTimeout_def whole_ms_def
        reference_config_def)
  with stop_cancels [OF reachable_first_step [of "constant_source 0"], of "[100000, 5]"]
    reachable_first_step [of "constant_source 0"]
  show ?thesis by simp
qed

lemma run_first_burst:
  assumes w: "0 \<le> whole_ms (warmup c)" and d: "0 < whole_ms (stepInterval c)" and k: "k < length (glitchSteps c)"
  shows "run_until c rnd (whole_ms (warmup c) + real k * whole_ms (stepInterval c)) (start c) =
         Some (phase_state c rnd 0 k)"
proof -
  let ?t = "whole_ms (warmup c) + real k * whole_ms (stepInterval c)"
  have d0: "0 \<le> whole_ms (stepInterval c)" using d by simp
  have kd: "0 \<le> real k * whole_ms (stepInterval c)" using d0 by simp
  from k have ne: "glitchSteps c \<noteq> []" by auto
  have "run_until c rnd ?t (start c) = run_until c rnd ?t (phase_state c rnd 0 0)"
    using w kd d0 ne by (intro run_warmup) simp_all
  also have "\<dots> = run_until c rnd ?t (phase_state c rnd 0 k)"
    using d0 k by (intro run_burst) simp_all
  also have "\<dots> = Some ((phase_state c rnd 0 k)\<lparr>now := max (now (phase_state c rnd 0 k)) ?t\<rparr>)"
    using k d by (intro run_halt) (simp add: pending_def algebra_simps)
  also have "(phase_state c rnd 0 k)\<lparr>now := max (now (phase_state c rnd 0 k)) ?t\<rparr> = phase_state c rnd 0 k"
    by (simp add: phase_state_def)
  finally show ?thesis .
qed

lemma history_phase_state:
  "i < length (glitchSteps c) \<Longrightarrow>
   history (phase_state c rnd q i) = concat (replicate q (glitchSteps c)) @ take (Suc i) (glitchSteps c)"
  by (simp add: history_def phase_state_def emitted_append emitted_cycles emitted_map_Emit)

text \<open>
  C1, amended. For every step list \<open>S\<close> of length \<open>n\<close>, every warm-up delay \<open>w \<ge> 0\<close> and
  every delay \<open>d > 0\<close> between steps, both whole numbers of milliseconds: after \<open>start\<close>
  and advancing the clock by \<open>w + k * d\<close>, for \<open>k < n\<close>, the emitted-opacity history is
  \<open>S[0..k]\<close>, in order. The claim as stated leaves the warm-up out: in the reference
  configuration nothing has been emitted \<open>2 * 75\<close> ms after \<open>start\<close>.
\<close>

theorem burst_history_in_order:
  assumes "warmup c \<in> \<int>" and "stepInterval c \<in> \<int>"
    and "0 \<le> warmup c" and "0 < stepInterval c" and "k < length (glitchSteps c)"
  shows "map_option history (advance c rnd (warmup c + real k * stepInterval c) (start c)) =
         Some (take (Suc k) (glitchSteps c))"
proof -
  from assms have w: "whole_ms (warmup c) = warmup c"
    and d: "whole_ms (stepInterval c) = stepInterval c"
    by (simp_all add: whole_ms_Ints)
  have "run_until c rnd (whole_ms (warmup c) + real k * whole_ms (stepInterval c)) (start c) =
        Some (phase_state c rnd 0 k)"
    using assms(4,5) by (intro run_first_burst) (simp_all add: d whole_ms_nonneg)
  then show ?thesis
    using assms(5) by (simp add: w d advance_def now_start history_phase_state)
qed

theorem burst_history_in_order_witness:
  "map_option history (advance reference_config (constant_source 0) (2000 + 2 * 75) (start reference_config)) =
     Some [0.6, 0.2, 0.8]"
  using burst_history_in_order [of reference_config 2 "constant_source 0"]
  by (simp add: reference_config_def)

theorem burst_history_counterexample:
  "map_option history
     (advance reference_config (constant_source 0) (2 * stepInterval reference_config) (start reference_config))
     = Some [] \<and>
   map_option history
     (advance reference_config (constant_source 0) (2 * stepInterval reference_config) (start reference_config))
     \<noteq> Some (take (Suc 2) (glitchSteps reference_config))"
proof -
  have "run_until reference_config (constant_source 0) 150 (start reference_config) =
        Some ((start reference_config)\<lparr>now := max 0 150\<rparr>)"
    by (rule run_before_warmup) (simp_all add: whole_ms_def reference_config_def)
  then have e: "map_option history
     (advance reference_config (constant_source 0) (2 * stepInterval reference_config) (start reference_config))
     = Some []"
    by (simp add: advance_def now_start history_def trace_start reference_config_def)
  show ?thesis unfolding e by (simp add: reference_config_def)
qed

lemma randomLoopInterval_sample:
  "randomLoopInterval reference_config (3 / 2048) = 1500 + 375 / 256"
proof -
  let ?p = "3 / 2048 * 1000 :: real"
  have "ulp ?p = 2 powi (int 0 - 52)"
    by (rule ulp_exact) simp_all
  then have u1: "ulp ?p = 1 / 2 ^ 52"
    by (simp add: power_int_def field_simps)
  have r1: "rne (?p / (1 / 2 ^ 52)) = 375 * 2 ^ 44"
    by (simp add: rne_def Let_def)
  have "fl ?p = of_int (375 * 2 ^ 44) * (1 / 2 ^ 52)"
    using _ u1 r1 by (rule fl_eval) simp
  then have y: "fl ?p = 375 / 256" by simp
  let ?x = "375 / 256 + 1500 :: real"
  have "ulp ?x = 2 powi (int 10 - 52)"
    by (rule ulp_exact) simp_all
  then have u2: "ulp ?x = 1 / 2 ^ 42"
    by (simp add: power_int_def field_simps)
  have r2: "rne (?x / (1 / 2 ^ 42)) = 384375 * 2 ^ 34"
    by (simp add: rne_def Let_def)
  have "fl ?x = of_int (384375 * 2 ^ 34) * (1 / 2 ^ 42)"
    using _ u2 r2 by (rule fl_eval) simp
  then have x: "fl ?x = 1500 + 375 / 256" by simp
  have "randomLoopInterval reference_config (3 / 2048) = fl (fl ?p + 1500)"
    by (simp only: randomLoopInterval_reference)
  also have "\<dots> = fl ?x" by (simp only: y)
  also note x
  finally show ?thesis .
qed

text \<open>
  C3. With a non-empty step list and a delay between steps of at least one millisecond,
  whatever the random source returns: at the time burst \<open>q\<close> starts, that is after the
  warm-up and \<open>q\<close> times a full burst and its pause (the timer waits the whole
  milliseconds of each delay), the trace is \<open>q\<close> cycles, each the whole step list
  followed by exactly one pause, and then the first step again. This holds for every
  \<open>q\<close>: the cycle goes on for ever. (A burst takes as many step intervals as it has
  steps: the pause is set one interval after the last step.)
\<close>

theorem burst_restarts:
  assumes "glitchSteps c \<noteq> []" and "1 \<le> stepInterval c"
  shows "map_option trace (advance c rnd (burst_start c rnd q) (start c)) =
           Some (cycles c rnd q @ [Emit (glitchSteps c ! 0)]) \<and>
         map_option history (advance c rnd (burst_start c rnd q) (start c)) =
           Some (concat (replicate q (glitchSteps c)) @ [glitchSteps c ! 0])"
proof -
  from assms(1) have k: "0 < length (glitchSteps c)" by simp
  from assms(2) have d: "0 < whole_ms (stepInterval c)" by (rule whole_ms_pos)
  have p: "\<forall>q. 0 \<le> whole_ms (randomLoopInterval c (rnd q))" by (simp add: whole_ms_nonneg)
  have "run_until c rnd (burst_start c rnd q + real 0 * whole_ms (stepInterval c)) (start c) =
        Some (phase_state c rnd q 0)"
    using whole_ms_nonneg d p k by (rule run_to_step)
  then have "advance c rnd (burst_start c rnd q) (start c) = Some (phase_state c rnd q 0)"
    by (simp add: advance_def now_start)
  moreover have "take (Suc 0) (glitchSteps c) = [glitchSteps c ! 0]"
    using k by (simp add: take_Suc_conv_app_nth)
  ultimately show ?thesis
    using k by (simp add: history_phase_state) (simp add: phase_state_def)
qed

theorem burst_restarts_witness:
  "burst_start reference_config (constant_source (3 / 2048)) 1 = 3876 \<and>
   map_option trace
     (advance reference_config (constant_source (3 / 2048)) 3876 (start reference_config)) =
     Some [Emit 0.6, Emit 0.2, Emit 0.8, Emit 0.4, Emit 1, IdleWait (1500 + 375 / 256), Emit 0.6]"
proof -
  have b: "burst_start reference_config (constant_source (3 / 2048)) 1 = 3876"
    by (simp add: constant_source_def randomLoopInterval_sample whole_ms_def)
       (simp add: reference_config_def)
  have "1 \<le> stepInterval reference_config" "glitchSteps reference_config \<noteq> []"
    by (simp_all add: reference_config_def)
  from burst_restarts [OF this(2,1), of "constant_source (3 / 2048)" 1] b show ?thesis
    by (simp add: constant_source_def randomLoopInterval_sample) (simp add: reference_config_def)
qed

text \<open>
  C6. The warm-up delay is 2000 ms. Advancing the clock by less than that after \<open>start\<close>
  leaves the animator as \<open>start\<close> made it, with nothing emitted and the opacity 0; at
  2000 ms the trace is the single emission of the first step, 0.6.
\<close>

theorem warmup_before_first_step:
  "warmup reference_config = 2000 \<and>
   (\<forall>dt. dt < 2000 \<longrightarrow>
      advance reference_config rnd dt (start reference_config) =
        Some ((start reference_config)\<lparr>now := max 0 dt\<rparr>)) \<and>
   trace (start reference_config) = [] \<and> iconOpacity (start reference_config) = 0 \<and>
   map_option trace (advance reference_config rnd 2000 (start reference_config)) = Some [Emit 0.6] \<and>
   glitchSteps reference_config ! 0 = 0.6"
proof -
  have "advance reference_config rnd dt (start reference_config) =
        Some ((start reference_config)\<lparr>now := max 0 dt\<rparr>)" if "dt < 2000" for dt
    using that
    by (simp add: advance_def now_start run_before_warmup whole_ms_def reference_config_def)
  moreover have "run_until reference_config rnd
      (whole_ms (warmup reference_config) + real 0 * whole_ms (stepInterval reference_config))
      (start reference_config) =
      Some (phase_state reference_config rnd 0 0)"
    by (rule run_first_burst) (simp_all add: whole_ms_def reference_config_def)
  then have "map_option trace (advance reference_config rnd 2000 (start reference_config)) = Some [Emit 0.6]"
    by (simp add: advance_def now_start whole_ms_def)
       (simp add: phase_state_def whole_ms_def reference_config_def)
  ultimately show ?thesis
    by (simp add: trace_start) (simp add: reference_config_def start_def unmounted_def setTimeout_def)
qed

theorem warmup_before_first_step_witness:
  "advance reference_config (constant_source 0) 1999 (start reference_config) =
     Some ((start reference_config)\<lparr>now := 1999\<rparr>) \<and>
   history ((start reference_config)\<lparr>now := 1999\<rparr>) = []"
  using warmup_before_first_step [of "constant_source 0"]
  by (simp add: history_def trace_start)

section \<open>Properties of the application shell\<close>

lemma scale_handleResize:
  "modelScale (handleResize w s) = (if w \<le> 768 then 2.08 else 2.6)"
  by (simp add: handleResize_def)

text \<open>
  C4. For every viewport width \<open>w\<close> the scale is 2.08 if \<open>w \<le> 768\<close> and 2.6 otherwise; so
  500 gives 2.08, 1024 gives 2.6 and the boundary 768 gives 2.08. The scale depends on
  the width alone: it is this value after the initial check at mount, and after every
  resize event, whatever came before.
\<close>

theorem responsive_scale:
  "modelScale (app_mount w) = (if w \<le> 768 then 2.08 else 2.6) \<and>
   modelScale (app_run (es @ [Resize w]) s) = (if w \<le> 768 then 2.08 else 2.6) \<and>
   modelScale (app_mount 500) = 2.08 \<and>
   modelScale (app_mount 1024) = 2.6 \<and>
   modelScale (app_mount 768) = 2.08"
proof -
  have "modelScale (app_run (es @ [Resize w]) s) = (if w \<le> 768 then 2.08 else 2.6)"
    by (induction es arbitrary: s) (simp_all add: scale_handleResize)
  then show ?thesis by (simp add: app_mount_def scale_handleResize)
qed

text \<open>
  C10. The model scale is always one of the two values 2.08 and 2.6: it is 2.6 in the
  first render, and it is one of the two after the initial check and after any events.
\<close>

theorem model_scale_two_values:
  "modelScale app_initial = 2.6 \<and>
   modelScale (app_mount w) \<in> {2.08, 2.6} \<and>
   modelScale (app_run es (app_mount w)) \<in> {2.08, 2.6}"
proof -
  have step: "modelScale (app_step e s) \<in> {2.08, 2.6}" if "modelScale s \<in> {2.08, 2.6}" for e s
    using that
    by (cases e)
       (auto simp: handleResize_def onCreated_def bgColorEffect_def split: option.splits)
  have run: "modelScale (app_run es s) \<in> {2.08, 2.6}" if "modelScale s \<in> {2.08, 2.6}" for s
    using that
  proof (induction es arbitrary: s)
    case Nil
    then show ?case by (simp only: app_run.simps)
  next
    case (Cons e es)
    have "modelScale (app_run es (app_step e s)) \<in> {2.08, 2.6}"
      by (rule Cons.IH) (rule step, rule Cons.prems)
    then show ?case by (simp only: app_run.simps)
  qed
  have m: "modelScale (app_mount w) \<in> {2.08, 2.6}"
    by (simp add: app_mount_def scale_handleResize)
  from m run [OF m] show ?thesis by (simp add: app_initial_def)
qed

lemma in_step_app_step: "renderer_in_step s \<Longrightarrow> renderer_in_step (app_step e s)"
  by (cases e)
     (auto simp: renderer_in_step_def bgColorEffect_def onCreated_def handleResize_def
        setClearColor_def split: option.splits)

lemma in_step_app_run: "renderer_in_step s \<Longrightarrow> renderer_in_step (app_run es s)"
  by (induction es arbitrary: s) (simp_all add: in_step_app_step)

lemma bgColor_app_run: "bgColor (app_run es s) = last (bgColor s # bg_changes es)"
  by (induction es arbitrary: s rule: bg_changes.induct)
     (simp_all add: bgColorEffect_def onCreated_def handleResize_def split: option.splits)

lemma bgColor_app_mount: "bgColor (app_mount w) = ''#ffffff''"
  by (simp add: app_mount_def app_initial_def bgColorEffect_def handleResize_def)

lemma in_step_app_mount: "renderer_in_step (app_mount w)"
  by (simp add: renderer_in_step_def app_mount_def app_initial_def bgColorEffect_def
      handleResize_def)

text \<open>
  C9. Last write wins for the background colour: after any sequence of events, a renderer
  that the canvas has reported holds as its clear colour the background colour set last
  (the default \<open>#ffffff\<close> if none was set).
\<close>

theorem clear_color_last_write_wins:
  assumes "rendererRef (app_run es (app_mount w)) = Some gl"
  shows "clearColor gl = Color (last (''#ffffff'' # bg_changes es))"
proof -
  have "renderer_in_step (app_run es (app_mount w))"
    by (intro in_step_app_run in_step_app_mount)
  with assms have "clearColor gl = Color (bgColor (app_run es (app_mount w)))"
    by (simp add: renderer_in_step_def)
  then show ?thesis by (simp add: bgColor_app_run bgColor_app_mount)
qed

theorem clear_color_last_write_wins_witness:
  "rendererRef (app_run [CanvasCreated \<lparr>clearColor = Color ''#000000''\<rparr>, SetBgColor ''#112233'',
        Resize 500, SetBgColor ''#445566''] (app_mount 1024))
     = Some \<lparr>clearColor = Color ''#445566''\<rparr> \<and>
   clearColor \<lparr>clearColor = Color ''#445566''\<rparr>
     = Color (last (''#ffffff'' # bg_changes [CanvasCreated \<lparr>clearColor = Color ''#000000''\<rparr>,
         SetBgColor ''#112233'', Resize 500, SetBgColor ''#445566'']))"
proof -
  have h: "rendererRef (app_run [CanvasCreated \<lparr>clearColor = Color ''#000000''\<rparr>,
        SetBgColor ''#112233'', Resize 500, SetBgColor ''#445566''] (app_mount 1024))
     = Some \<lparr>clearColor = Color ''#445566''\<rparr>"
    by (simp add: app_mount_def app_initial_def bgColorEffect_def handleResize_def onCreated_def
        setClearColor_def)
  from h clear_color_last_write_wins [OF h] show ?thesis by simp
qed

section \<open>Properties of the model component\<close>

lemma firstMesh_None: "firstMesh nodes = None \<longleftrightarrow> (\<forall>kv \<in> set nodes. \<not> is_mesh (snd kv))"
  by (induction nodes rule: firstMesh.induct) simp_all

lemma firstMesh_first:
  assumes "\<forall>kv \<in> set pre. \<not> is_mesh (snd kv)"
  shows "firstMesh (pre @ (k, Mesh m) # post) = Some m"
  using assms by (induction pre rule: firstMesh.induct) simp_all

text \<open>
  C8. When no node of the asset is a mesh, \<open>Helmet\<close> renders nothing and writes one
  warning to the console; when there is a mesh, the element it returns shows the first
  one in the order of the loop, and nothing is written. \<open>Helmet\<close> returns in both cases.
\<close>

theorem helmet_tolerates_missing_mesh:
  "((\<forall>kv \<in> set nodes. \<not> is_mesh (snd kv)) \<longrightarrow>
      Helmet props nodes = \<lparr>element = None, console = [''No mesh found in elegant_g.glb'']\<rparr>) \<and>
   ((\<forall>kv \<in> set pre. \<not> is_mesh (snd kv)) \<longrightarrow>
      Helmet props (pre @ (k, Mesh m) # post) =
        \<lparr>element = Some (Group props [Primitive m True 0.15 (0, 0, 0) (0, 0, 0) 1]),
         console = []\<rparr>)"
proof -
  have "firstMesh nodes = None" if "\<forall>kv \<in> set nodes. \<not> is_mesh (snd kv)"
    using that by (simp add: firstMesh_None)
  then show ?thesis by (simp add: Helmet_def firstMesh_first)
qed

theorem helmet_tolerates_missing_mesh_witness:
  "Helmet () [(''Scene'', NotMesh), (''Camera'', NotMesh :: nat node)]
     = \<lparr>element = None, console = [''No mesh found in elegant_g.glb'']\<rparr> \<and>
   Helmet () ([(''Scene'', NotMesh)] @ (''G'', Mesh (1::nat)) # [(''H'', Mesh 2)])
     = \<lparr>element = Some (Group () [Primitive 1 True 0.15 (0, 0, 0) (0, 0, 0) 1]), console = []\<rparr>"
  using helmet_tolerates_missing_mesh [of "[(''Scene'', NotMesh), (''Camera'', NotMesh :: nat node)]"
      "()" "[(''Scene'', NotMesh :: nat node)]" "''G''" 1 "[(''H'', Mesh 2)]"]
  by simp

end
